theory Spec2Isabelle
  imports
    Main
    "HOL-Library.Word"
    "HOL-Library.Char_ord"
    "HOL-Library.List_Lexorder"
    "HOL-Library.Multiset"
begin

section \<open>Data model\<close>

text \<open>
  A Go \<^verbatim>\<open>string\<close> is a sequence of bytes, compared byte by byte (a proper prefix is
  smaller): \<^typ>\<open>string\<close> with the order of \<open>Char_ord\<close> and \<open>List_Lexorder\<close>.
  The Go \<^verbatim>\<open>int\<close> of the \<^verbatim>\<open>count\<close> field is a machine integer, of 64 bits on the usual
  platforms; \<open>+\<close> wraps.
  The field is called \<open>count_wc\<close> because \<open>count\<close> is the multiplicity function of
  multisets.

  \<^verbatim>\<open>strings.Fields\<close> and the regular expression engine read a line rune by rune
  (a byte that is not part of a valid UTF-8 sequence is read as the rune U+FFFD, which is
  neither white space nor a letter). The line handed to \<open>mapFn\<close> is modelled as that
  sequence of runes (code points).
\<close>

type_synonym rune = nat

record wordCount =
  word :: string
  count_wc :: "64 word"

datatype error = Canceled | IndexOutOfRange

text \<open>
  The context of a stage: \<open>ctx k\<close> tells whether the \<open>k\<close>-th \<^verbatim>\<open>select\<close> the stage
  executes (counted from 0) takes its \<^verbatim>\<open><-ctx.Done()\<close> branch. \<open>background\<close> is a
  context that is never cancelled.
\<close>

type_synonym ctx = "nat \<Rightarrow> bool"

definition background :: ctx where
  "background = (\<lambda>k. False)"

section \<open>mapFn\<close>

text \<open>\<^verbatim>\<open>unicode.IsSpace\<close>: the runes with the Unicode property White_Space.\<close>

definition isSpace :: "rune \<Rightarrow> bool" where
  "isSpace r \<longleftrightarrow>
     (9 \<le> r \<and> r \<le> 13) \<or> r = 32 \<or> r = 133 \<or> r = 160 \<or> r = 5760 \<or>
     (8192 \<le> r \<and> r \<le> 8202) \<or> r = 8232 \<or> r = 8233 \<or> r = 8239 \<or> r = 8287 \<or> r = 12288"

text \<open>
  \<^verbatim>\<open>strings.FieldsFunc\<close>: one pass over the runes; \<open>cur\<close> is the field being read
  (\<^verbatim>\<open>start >= 0\<close> in the Go code), closed at the next rune that satisfies \<open>f\<close> or at
  the end of the string.
\<close>

fun FieldsFunc_loop :: "(rune \<Rightarrow> bool) \<Rightarrow> rune list option \<Rightarrow> rune list \<Rightarrow> rune list list" where
  "FieldsFunc_loop f cur [] = (case cur of None \<Rightarrow> [] | Some w \<Rightarrow> [w])"
| "FieldsFunc_loop f cur (r # rs) =
     (if f r then
        (case cur of None \<Rightarrow> FieldsFunc_loop f None rs
                   | Some w \<Rightarrow> w # FieldsFunc_loop f None rs)
      else
        (case cur of None \<Rightarrow> FieldsFunc_loop f (Some [r]) rs
                   | Some w \<Rightarrow> FieldsFunc_loop f (Some (w @ [r])) rs))"

definition Fields :: "rune list \<Rightarrow> rune list list" where
  "Fields s = FieldsFunc_loop isSpace None s"

text \<open>The character class of \<^verbatim>\<open>nonAlpha\<close> is the complement of \<open>[a-zA-Z]\<close>.\<close>

definition isAlpha :: "rune \<Rightarrow> bool" where
  "isAlpha r \<longleftrightarrow> (97 \<le> r \<and> r \<le> 122) \<or> (65 \<le> r \<and> r \<le> 90)"

text \<open>
  \<^verbatim>\<open>nonAlpha.ReplaceAllString(w, "")\<close> for \<^verbatim>\<open>nonAlpha = [^a-zA-Z]+\<close>: every maximal run
  of runes outside the class is a match and is replaced by the empty string.
\<close>

function nonAlpha_ReplaceAllString :: "rune list \<Rightarrow> rune list" where
  "nonAlpha_ReplaceAllString [] = []"
| "nonAlpha_ReplaceAllString (r # rs) =
     (if isAlpha r then r # nonAlpha_ReplaceAllString rs
      else nonAlpha_ReplaceAllString (dropWhile (\<lambda>x. \<not> isAlpha x) rs))"
  by pat_completeness auto
termination
  by (relation "measure length") (auto simp: less_Suc_eq_le length_dropWhile_le)

text \<open>
  \<^verbatim>\<open>strings.ToLower\<close> on ASCII: \<open>A\<close>..\<open>Z\<close> are shifted by \<open>'a' - 'A'\<close>. Runes beyond
  ASCII are lowered by the Unicode case tables in Go; they are left as they are here,
  and \<open>mapFn\<close> passes none (lemma \<open>nonAlpha_ReplaceAllString_letters\<close>).
\<close>

definition toLower_rune :: "rune \<Rightarrow> rune" where
  "toLower_rune r = (if 65 \<le> r \<and> r \<le> 90 then r + 32 else r)"

definition ToLower :: "rune list \<Rightarrow> rune list" where
  "ToLower s = map toLower_rune s"

text \<open>The bytes of a string of ASCII runes.\<close>

definition bytes :: "rune list \<Rightarrow> string" where
  "bytes s = map char_of s"

text \<open>The runes of an ASCII string literal.\<close>

definition runes :: "string \<Rightarrow> rune list" where
  "runes s = map of_char s"

text \<open>\<open>mapFn\<close>: the loop over the fields appends to \<open>result\<close>.\<close>

fun mapFn_loop :: "wordCount list \<Rightarrow> rune list list \<Rightarrow> wordCount list" where
  "mapFn_loop result [] = result"
| "mapFn_loop result (w # ws) =
     (let w' = ToLower (nonAlpha_ReplaceAllString w) in
      if w' \<noteq> [] then mapFn_loop (result @ [\<lparr>word = bytes w', count_wc = 1\<rparr>]) ws
      else mapFn_loop result ws)"

definition mapFn :: "rune list \<Rightarrow> wordCount list" where
  "mapFn line = mapFn_loop [] (Fields line)"

section \<open>mapper\<close>

text \<open>
  The stage's output channel is modelled by the list of the records sent on it, in the
  order of sending, together with the error the goroutine returns (\<open>None\<close> for
  \<^verbatim>\<open>nil\<close>). An input channel is the list of what is received from it before it is
  closed.
\<close>

fun mapper_inner :: "ctx \<Rightarrow> nat \<Rightarrow> wordCount list \<Rightarrow> wordCount list \<times> error option" where
  "mapper_inner ctx k [] = ([], None)"
| "mapper_inner ctx k (wc # wcs) =
     (if ctx k then ([], Some Canceled)
      else (case mapper_inner ctx (Suc k) wcs of (out, e) \<Rightarrow> (wc # out, e)))"

fun mapper_loop ::
  "ctx \<Rightarrow> nat \<Rightarrow> rune list list \<Rightarrow> (rune list \<Rightarrow> wordCount list) \<Rightarrow> wordCount list \<times> error option" where
  "mapper_loop ctx k [] fn = ([], None)"
| "mapper_loop ctx k (l # input) fn =
     (case mapper_inner ctx k (fn l) of
        (out, Some e) \<Rightarrow> (out, Some e)
      | (out, None) \<Rightarrow>
          (case mapper_loop ctx (k + length out) input fn of (out', e) \<Rightarrow> (out @ out', e)))"

definition mapper ::
  "ctx \<Rightarrow> rune list list \<Rightarrow> (rune list \<Rightarrow> wordCount list) \<Rightarrow> wordCount list \<times> error option" where
  "mapper ctx input fn = mapper_loop ctx 0 input fn"

section \<open>wordCountHeap and container/heap\<close>

type_synonym wordCountHeap = "wordCount list"

definition Len :: "wordCountHeap \<Rightarrow> nat" where
  "Len w = length w"

definition Less :: "wordCountHeap \<Rightarrow> nat \<Rightarrow> nat \<Rightarrow> bool" where
  "Less w i j \<longleftrightarrow> word (w ! i) < word (w ! j)"

definition Swap :: "wordCountHeap \<Rightarrow> nat \<Rightarrow> nat \<Rightarrow> wordCountHeap" where
  "Swap w i j = w[i := w ! j, j := w ! i]"

text \<open>The method \<^verbatim>\<open>Pop\<close> panics on an empty slice.\<close>

definition Pop :: "wordCountHeap \<Rightarrow> error + (wordCount \<times> wordCountHeap)" where
  "Pop w = (if w = [] then Inl IndexOutOfRange else Inr (w ! (length w - 1), take (length w - 1) w))"

definition Push :: "wordCountHeap \<Rightarrow> wordCount \<Rightarrow> wordCountHeap" where
  "Push w x = w @ [x]"

text \<open>
  \<^verbatim>\<open>up\<close> and \<open>down\<close> of \<^verbatim>\<open>container/heap\<close>. Indices are natural numbers: Go's
  \<^verbatim>\<open>(j - 1) / 2\<close> truncates towards zero and is \<open>0\<close> for \<open>j = 0\<close>, as
  \<^term>\<open>(j - 1) div 2\<close> is on \<^typ>\<open>nat\<close>; and \<^verbatim>\<open>2*i + 1\<close> does not overflow for an
  index of a slice held in memory, so the guard \<^verbatim>\<open>j1 < 0\<close> of \<open>down\<close> never holds.
  Both are called with indices inside the slice only (\<open>heap_Push\<close>, \<open>heap_Pop\<close>).
  The Boolean that \<open>down\<close> returns is not used by \<^verbatim>\<open>heap.Pop\<close>.
\<close>

function up :: "wordCountHeap \<Rightarrow> nat \<Rightarrow> wordCountHeap" where
  "up h j =
     (let i = (j - 1) div 2 in
      if i = j \<or> \<not> Less h j i then h
      else up (Swap h i j) i)"
  by pat_completeness auto
termination
  by (relation "measure snd") auto

function down :: "wordCountHeap \<Rightarrow> nat \<Rightarrow> nat \<Rightarrow> wordCountHeap" where
  "down h i n =
     (let j1 = 2 * i + 1 in
      if j1 \<ge> n then h
      else
        let j = (if j1 + 1 < n \<and> Less h (j1 + 1) j1 then j1 + 1 else j1) in
        if \<not> Less h j i then h
        else down (Swap h i j) j n)"
  by pat_completeness auto
termination
  by (relation "measure (\<lambda>(h, i, n). n - i)") (auto split: if_splits)

declare up.simps [simp del]
declare down.simps [simp del]

definition heap_Push :: "wordCountHeap \<Rightarrow> wordCount \<Rightarrow> wordCountHeap" where
  "heap_Push h x = (let h1 = Push h x in up h1 (Len h1 - 1))"

text \<open>
  \<^verbatim>\<open>heap.Pop\<close> on an empty heap computes \<^verbatim>\<open>n = -1\<close> and panics in \<^verbatim>\<open>Swap(0, -1)\<close>.
\<close>

definition heap_Pop :: "wordCountHeap \<Rightarrow> error + (wordCount \<times> wordCountHeap)" where
  "heap_Pop h =
     (if Len h = 0 then Inl IndexOutOfRange
      else
        let n = Len h - 1;
            h1 = Swap h 0 n;
            h2 = down h1 0 n
        in Pop h2)"

subsection \<open>Lengths\<close>

text \<open>
  \<open>up\<close> and \<open>down\<close> only swap elements; a \<^verbatim>\<open>heap.Pop\<close> that does not panic makes the
  heap one element shorter. The second loop of the sorter terminates for this reason.
\<close>

lemma length_Swap: "length (Swap h i j) = length h"
  by (simp add: Swap_def)

lemma length_up: "length (up h j) = length h"
proof (induction h j rule: up.induct)
  case (1 h j)
  show ?case
  proof (cases "(j - 1) div 2 = j \<or> \<not> Less h j ((j - 1) div 2)")
    case True
    then show ?thesis by (subst up.simps) (simp add: Let_def)
  next
    case False
    then have "up h j = up (Swap h ((j - 1) div 2) j) ((j - 1) div 2)"
      by (subst up.simps) (simp add: Let_def)
    with 1 False show ?thesis by (simp add: length_Swap)
  qed
qed

lemma down_stop: "n \<le> 2 * i + 1 \<Longrightarrow> down h i n = h"
  by (subst down.simps) (simp add: Let_def)

lemma down_step:
  assumes "2 * i + 1 < n"
    and "j = (if 2 * i + 2 < n \<and> Less h (2 * i + 2) (2 * i + 1) then 2 * i + 2 else 2 * i + 1)"
  shows "down h i n = (if \<not> Less h j i then h else down (Swap h i j) j n)"
  using assms by (subst down.simps) (simp add: Let_def)

lemma length_down: "length (down h i n) = length h"
proof (induction h i n rule: down.induct)
  case (1 h i n)
  show ?case
  proof (cases "n \<le> 2 * i + 1")
    case True
    then show ?thesis by (simp add: down_stop)
  next
    case False
    define j where "j = (if 2 * i + 2 < n \<and> Less h (2 * i + 2) (2 * i + 1) then 2 * i + 2 else 2 * i + 1)"
    have step: "down h i n = (if \<not> Less h j i then h else down (Swap h i j) j n)"
      using False j_def by (intro down_step) auto
    show ?thesis
    proof (cases "Less h j i")
      case True
      have "length (down (Swap h i j) j n) = length (Swap h i j)"
        using False True j_def by (intro "1.IH"[OF refl _ _ _]) auto
      with step True show ?thesis by (simp add: length_Swap)
    next
      case False
      with step show ?thesis by simp
    qed
  qed
qed

lemma heap_Pop_length:
  assumes "heap_Pop h = Inr (x, h')"
  shows "Suc (length h') = length h"
  using assms
  by (auto simp: heap_Pop_def Pop_def Len_def Let_def length_down length_Swap
      split: if_splits)

section \<open>sorter\<close>

text \<open>
  What the sorter's goroutine does on its two channels, in order: \<open>Recv\<close> a record from
  \<^verbatim>\<open>input\<close>, \<open>Send\<close> a record on \<^verbatim>\<open>ch\<close>.
\<close>

datatype event = Recv wordCount | Send wordCount

fun sent :: "event list \<Rightarrow> wordCount list" where
  "sent [] = []"
| "sent (Recv x # t) = sent t"
| "sent (Send x # t) = x # sent t"

text \<open>The first loop: every record received is pushed, unless the context is done.\<close>

fun sorter_drain ::
  "ctx \<Rightarrow> nat \<Rightarrow> wordCountHeap \<Rightarrow> wordCount list \<Rightarrow> event list \<times> (error + wordCountHeap)" where
  "sorter_drain ctx k wcHeap [] = ([], Inr wcHeap)"
| "sorter_drain ctx k wcHeap (wc # input) =
     (if ctx k then ([Recv wc], Inl Canceled)
      else (case sorter_drain ctx (Suc k) (heap_Push wcHeap wc) input of
              (t, r) \<Rightarrow> (Recv wc # t, r)))"

text \<open>
  The second loop. The operand \<^verbatim>\<open>heap.Pop(wcHeap)\<close> of the send is evaluated on entry
  to the \<^verbatim>\<open>select\<close>, before a branch is chosen.
\<close>

function sorter_emit :: "ctx \<Rightarrow> nat \<Rightarrow> wordCountHeap \<Rightarrow> event list \<times> error option" where
  "sorter_emit ctx k wcHeap =
     (if Len wcHeap > 0 then
        (case heap_Pop wcHeap of
           Inl e \<Rightarrow> ([], Some e)
         | Inr (x, wcHeap') \<Rightarrow>
             if ctx k then ([], Some Canceled)
             else (case sorter_emit ctx (Suc k) wcHeap' of (t, e) \<Rightarrow> (Send x # t, e)))
      else ([], None))"
  by pat_completeness auto
termination
  by (relation "measure (\<lambda>(ctx, k, h). length h)") (auto dest: heap_Pop_length)

declare sorter_emit.simps [simp del]

definition sorter_trace :: "ctx \<Rightarrow> wordCount list \<Rightarrow> event list \<times> error option" where
  "sorter_trace ctx input =
     (case sorter_drain ctx 0 [] input of
        (t, Inl e) \<Rightarrow> (t, Some e)
      | (t, Inr wcHeap) \<Rightarrow>
          (case sorter_emit ctx (length input) wcHeap of (t', e) \<Rightarrow> (t @ t', e)))"

definition sorter :: "ctx \<Rightarrow> wordCount list \<Rightarrow> wordCount list \<times> error option" where
  "sorter ctx input = (case sorter_trace ctx input of (t, e) \<Rightarrow> (sent t, e))"

section \<open>reducer\<close>

text \<open>
  The body of the reducer's loop for one record \<open>inp\<close> (\<^verbatim>\<open>in\<close> in the source): the record to send, if any, and
  the accumulator \<open>wc\<close> after the body. The statement \<^verbatim>\<open>wc.count += in.count\<close> stands
  after the \<^verbatim>\<open>if\<close> and is executed for every record.
\<close>

definition reducer_body :: "wordCount \<Rightarrow> wordCount \<Rightarrow> wordCount option \<times> wordCount" where
  "reducer_body wc inp =
     (let (emit, wc1) =
            (if word wc \<noteq> word inp
             then (if word wc \<noteq> [] then Some wc else None, inp)
             else (None, wc))
      in (emit, wc1\<lparr>count_wc := count_wc wc1 + count_wc inp\<rparr>))"

fun reducer_loop ::
  "ctx \<Rightarrow> nat \<Rightarrow> wordCount \<Rightarrow> wordCount list \<Rightarrow> wordCount list \<times> error option" where
  "reducer_loop ctx k wc [] = ([], None)"
| "reducer_loop ctx k wc (inp # input) =
     (case reducer_body wc inp of
        (None, wc') \<Rightarrow> reducer_loop ctx k wc' input
      | (Some r, wc') \<Rightarrow>
          if ctx k then ([], Some Canceled)
          else (case reducer_loop ctx (Suc k) wc' input of (out, e) \<Rightarrow> (r # out, e)))"

text \<open>\<^verbatim>\<open>var wc wordCount\<close> is the zero value.\<close>

definition reducer :: "ctx \<Rightarrow> wordCount list \<Rightarrow> wordCount list \<times> error option" where
  "reducer ctx input = reducer_loop ctx 0 \<lparr>word = [], count_wc = 0\<rparr> input"

section \<open>The pipeline of main\<close>

text \<open>
  \<^verbatim>\<open>main\<close> wires the line source to \<open>mapper\<close> (with \<open>mapFn\<close>), \<open>sorter\<close> and \<open>reducer\<close>,
  and prints what the reducer sends. \<open>pipeline\<close> is the list of records printed by a run
  whose context is never cancelled, for the lines read.
\<close>

definition pipeline :: "rune list list \<Rightarrow> wordCount list" where
  "pipeline input =
     (let mapped = fst (mapper background input mapFn);
          sorted = fst (sorter background mapped);
          reduced = fst (reducer background sorted)
      in reduced)"

section \<open>Sequences of heap operations\<close>

text \<open>
  A use of the heap through \<^verbatim>\<open>container/heap\<close>: a sequence of \<^verbatim>\<open>heap.Push\<close> and
  \<^verbatim>\<open>heap.Pop\<close> calls on one \<open>wordCountHeap\<close>. A \<^verbatim>\<open>heap.Pop\<close> on the empty heap panics
  and ends the run.
\<close>

datatype heap_op = OpPush wordCount | OpPop

fun run_ops :: "wordCountHeap \<Rightarrow> heap_op list \<Rightarrow> error + wordCountHeap" where
  "run_ops h [] = Inr h"
| "run_ops h (OpPush x # ops) = run_ops (heap_Push h x) ops"
| "run_ops h (OpPop # ops) =
     (case heap_Pop h of Inl e \<Rightarrow> Inl e | Inr (x, h') \<Rightarrow> run_ops h' ops)"

section \<open>Word counts\<close>

text \<open>
  The word count of a list of records: the counts of the records of a word, summed.
\<close>

definition summed_count :: "wordCount list \<Rightarrow> string \<Rightarrow> 64 word" where
  "summed_count out w = sum_list (map count_wc (filter (\<lambda>r. word r = w) out))"

text \<open>
  The reference word count of C1, after the words of the specification: in one pass over
  the lines, the tokens are normalised, the empty ones dropped, and the occurrences of a
  word counted.
\<close>

definition reference_tokens :: "rune list list \<Rightarrow> string list" where
  "reference_tokens input =
     concat (map (\<lambda>line. filter (\<lambda>t. t \<noteq> [])
                    (map (\<lambda>w. bytes (ToLower (filter isAlpha w))) (Fields line))) input)"

definition reference_count :: "rune list list \<Rightarrow> string \<Rightarrow> nat" where
  "reference_count input w = count_list (reference_tokens input) w"

section \<open>The heap invariant\<close>

text \<open>
  \<open>heap_ok h n\<close>: among the first \<open>n\<close> elements of \<open>h\<close>, no element is smaller (by
  \<open>Less\<close>) than its parent, the element at index \<open>parent k\<close>.
\<close>

definition parent :: "nat \<Rightarrow> nat" where
  "parent k = (k - 1) div 2"

definition heap_ok :: "wordCountHeap \<Rightarrow> nat \<Rightarrow> bool" where
  "heap_ok h n \<longleftrightarrow> (\<forall>k. 0 < k \<and> k < n \<longrightarrow> word (h ! (parent k)) \<le> word (h ! k))"

text \<open>The invariant of the loop of \<open>up\<close>: only \<open>j\<close> may be smaller than its parent.\<close>

definition up_inv :: "wordCountHeap \<Rightarrow> nat \<Rightarrow> nat \<Rightarrow> bool" where
  "up_inv h n j \<longleftrightarrow>
     (\<forall>k. 0 < k \<and> k < n \<and> k \<noteq> j \<longrightarrow> word (h ! (parent k)) \<le> word (h ! k)) \<and>
     (\<forall>k. 0 < k \<and> k < n \<and> parent k = j \<and> 0 < j \<longrightarrow>
          word (h ! (parent j)) \<le> word (h ! k))"

text \<open>The invariant of the loop of \<open>down\<close>: only the children of \<open>i\<close> may be smaller than \<open>i\<close>.\<close>

definition down_inv :: "wordCountHeap \<Rightarrow> nat \<Rightarrow> nat \<Rightarrow> bool" where
  "down_inv h n i \<longleftrightarrow>
     (\<forall>k. 0 < k \<and> k < n \<and> parent k \<noteq> i \<longrightarrow> word (h ! (parent k)) \<le> word (h ! k)) \<and>
     (\<forall>k. 0 < k \<and> k < n \<and> parent k = i \<and> 0 < i \<longrightarrow>
          word (h ! (parent i)) \<le> word (h ! k))"

text \<open>The child that \<open>down\<close> compares with \<open>i\<close>: the smaller one by \<open>Less\<close>.\<close>

definition child :: "wordCountHeap \<Rightarrow> nat \<Rightarrow> nat \<Rightarrow> nat" where
  "child h i n = (if 2 * i + 2 < n \<and> Less h (2 * i + 2) (2 * i + 1) then 2 * i + 2 else 2 * i + 1)"

section \<open>mapFn: tokens of a line\<close>

lemma FieldsFunc_loop_Some:
  "FieldsFunc_loop f (Some w) s =
     (w @ takeWhile (\<lambda>x. \<not> f x) s) # FieldsFunc_loop f None (dropWhile (\<lambda>x. \<not> f x) s)"
  by (induction s arbitrary: w) simp_all

lemma FieldsFunc_loop_None:
  "FieldsFunc_loop f None s =
     (case dropWhile f s of
        [] \<Rightarrow> []
      | r # rs \<Rightarrow> takeWhile (\<lambda>x. \<not> f x) (r # rs) #
                 FieldsFunc_loop f None (dropWhile (\<lambda>x. \<not> f x) (r # rs)))"
  by (induction s) (simp_all add: FieldsFunc_loop_Some)

lemma FieldsFunc_loop_fields:
  assumes "w \<in> set (FieldsFunc_loop f cur s)"
    and "\<forall>c. cur = Some c \<longrightarrow> c \<noteq> [] \<and> (\<forall>r \<in> set c. \<not> f r)"
  shows "w \<noteq> [] \<and> (\<forall>r \<in> set w. \<not> f r)"
  using assms
proof (induction s arbitrary: cur)
  case Nil
  then show ?case by (auto split: option.splits)
next
  case (Cons r s)
  show ?case
  proof (cases "f r")
    case True
    then have "w \<in> set (FieldsFunc_loop f None s) \<or> cur = Some w"
      using Cons.prems(1) by (auto split: option.splits)
    then show ?thesis
    proof
      assume "w \<in> set (FieldsFunc_loop f None s)"
      then show ?thesis by (rule Cons.IH) simp
    next
      assume "cur = Some w"
      then show ?thesis using Cons.prems(2) by simp
    qed
  next
    case False
    let ?c = "case cur of None \<Rightarrow> [r] | Some c \<Rightarrow> c @ [r]"
    have "w \<in> set (FieldsFunc_loop f (Some ?c) s)"
      using Cons.prems(1) False by (auto split: option.splits)
    moreover have "\<forall>c. Some ?c = Some c \<longrightarrow> c \<noteq> [] \<and> (\<forall>r \<in> set c. \<not> f r)"
      using Cons.prems(2) False by (auto split: option.splits)
    ultimately show ?thesis by (rule Cons.IH)
  qed
qed

lemma filter_dropWhile_not: "filter P (dropWhile (\<lambda>x. \<not> P x) xs) = filter P xs"
  by (induction xs) simp_all

lemma nonAlpha_ReplaceAllString_filter: "nonAlpha_ReplaceAllString s = filter isAlpha s"
  by (induction s rule: nonAlpha_ReplaceAllString.induct) (simp_all add: filter_dropWhile_not)

lemma nonAlpha_ReplaceAllString_letters:
  "r \<in> set (nonAlpha_ReplaceAllString s) \<Longrightarrow> isAlpha r"
  by (simp add: nonAlpha_ReplaceAllString_filter)

lemma mapFn_loop_map:
  "mapFn_loop result ws =
     result @ map (\<lambda>t. \<lparr>word = bytes t, count_wc = 1\<rparr>)
                (filter (\<lambda>t. t \<noteq> []) (map (\<lambda>w. ToLower (filter isAlpha w)) ws))"
  by (induction ws arbitrary: result)
     (simp_all add: Let_def nonAlpha_ReplaceAllString_filter)

lemma mapFn_map:
  "mapFn line =
     map (\<lambda>t. \<lparr>word = bytes t, count_wc = 1\<rparr>)
       (filter (\<lambda>t. t \<noteq> []) (map (\<lambda>w. ToLower (filter isAlpha w)) (Fields line)))"
  by (simp add: mapFn_def mapFn_loop_map)

lemma toLower_rune_letter: "isAlpha r \<Longrightarrow> 97 \<le> toLower_rune r \<and> toLower_rune r \<le> 122"
  by (auto simp: isAlpha_def toLower_rune_def)

lemma char_of_letter:
  assumes "97 \<le> n" "n \<le> (122::nat)"
  shows "CHR ''a'' \<le> (char_of n :: char) \<and> (char_of n :: char) \<le> CHR ''z''"
proof -
  have "of_char (char_of n :: char) = n"
    using assms by (simp add: of_char_of)
  then show ?thesis using assms by (simp add: less_eq_char_def)
qed

lemma mapFn_record:
  assumes "r \<in> set (mapFn line)"
  shows "count_wc r = 1 \<and> word r \<noteq> [] \<and> (\<forall>c \<in> set (word r). CHR ''a'' \<le> c \<and> c \<le> CHR ''z'')"
proof -
  from assms obtain w where r: "r = \<lparr>word = bytes (ToLower (filter isAlpha w)), count_wc = 1\<rparr>"
    and ne: "ToLower (filter isAlpha w) \<noteq> []"
    by (auto simp: mapFn_map)
  have "CHR ''a'' \<le> c \<and> c \<le> CHR ''z''" if "c \<in> set (word r)" for c
  proof -
    from that obtain x where "isAlpha x" "c = char_of (toLower_rune x)"
      by (auto simp: r bytes_def ToLower_def)
    then show ?thesis using toLower_rune_letter[of x] by (simp add: char_of_letter)
  qed
  then show ?thesis using ne by (simp add: r bytes_def)
qed

lemmas mapFn_eval =
  mapFn_def runes_def Fields_def isSpace_def isAlpha_def ToLower_def toLower_rune_def
  bytes_def char_of_def bit_Suc_0_iff

lemma Fields_unfold:
  "Fields line =
     (case dropWhile isSpace line of
        [] \<Rightarrow> []
      | r # rs \<Rightarrow> takeWhile (\<lambda>x. \<not> isSpace x) (r # rs) #
                 Fields (dropWhile (\<lambda>x. \<not> isSpace x) (r # rs)))"
  unfolding Fields_def by (rule FieldsFunc_loop_None)

lemma Fields_field:
  "w \<in> set (Fields line) \<Longrightarrow> w \<noteq> [] \<and> (\<forall>r \<in> set w. \<not> isSpace r)"
  using FieldsFunc_loop_fields[of w isSpace None line] by (simp add: Fields_def)

lemma concat_FieldsFunc_loop:
  "concat (FieldsFunc_loop f cur s) =
     (case cur of None \<Rightarrow> [] | Some c \<Rightarrow> c) @ filter (\<lambda>x. \<not> f x) s"
  by (induction s arbitrary: cur) (auto split: option.splits)

lemma concat_Fields: "concat (Fields line) = filter (\<lambda>x. \<not> isSpace x) line"
  by (simp add: Fields_def concat_FieldsFunc_loop)

lemma mapFn_no_letters:
  assumes "\<forall>r \<in> set line. \<not> isAlpha r"
  shows "mapFn line = []"
proof -
  have "filter isAlpha w = []" if "w \<in> set (Fields line)" for w
  proof -
    have "set w \<subseteq> set (concat (Fields line))" using that by auto
    then have "set w \<subseteq> set line" by (auto simp: concat_Fields)
    then show ?thesis using assms by (auto simp: filter_empty_conv)
  qed
  then show ?thesis by (simp add: mapFn_map ToLower_def filter_empty_conv)
qed

text \<open>
  C6. For every line, \<open>mapFn\<close> returns, in the order of the fields of the line, one record
  per field of which a letter is left, with the count 1 and as the word the ASCII letters
  of the field, lowered; a field of which no letter is left gives no record. The fields
  are the maximal runs of runes that are not white space: leading white space is skipped,
  the first field runs up to the next white space, and the other fields are those of the
  rest. So a field is never empty and holds no white space, the fields together are the
  line without its white space, and a word is never empty and holds only the letters
  \<open>a\<close> to \<open>z\<close>. A line without a letter, such as \<open>123 !!! --\<close>, gives no record.
\<close>

theorem mapFn_tokens:
  "mapFn line =
     map (\<lambda>t. \<lparr>word = bytes t, count_wc = 1\<rparr>)
       (filter (\<lambda>t. t \<noteq> []) (map (\<lambda>w. ToLower (filter isAlpha w)) (Fields line))) \<and>
   Fields line =
     (case dropWhile isSpace line of
        [] \<Rightarrow> []
      | r # rs \<Rightarrow> takeWhile (\<lambda>x. \<not> isSpace x) (r # rs) #
                 Fields (dropWhile (\<lambda>x. \<not> isSpace x) (r # rs))) \<and>
   (\<forall>w \<in> set (Fields line). w \<noteq> [] \<and> (\<forall>r \<in> set w. \<not> isSpace r)) \<and>
   concat (Fields line) = filter (\<lambda>x. \<not> isSpace x) line \<and>
   (\<forall>r \<in> set (mapFn line).
      count_wc r = 1 \<and> word r \<noteq> [] \<and> (\<forall>c \<in> set (word r). CHR ''a'' \<le> c \<and> c \<le> CHR ''z'')) \<and>
   ((\<forall>r \<in> set line. \<not> isAlpha r) \<longrightarrow> mapFn line = []) \<and>
   mapFn (runes ''123 !!! --'') = []"
proof (intro conjI)
  show "concat (Fields line) = filter (\<lambda>x. \<not> isSpace x) line"
    by (rule concat_Fields)
  show "(\<forall>r \<in> set line. \<not> isAlpha r) \<longrightarrow> mapFn line = []"
    using mapFn_no_letters by blast
  show "mapFn line =
     map (\<lambda>t. \<lparr>word = bytes t, count_wc = 1\<rparr>)
       (filter (\<lambda>t. t \<noteq> []) (map (\<lambda>w. ToLower (filter isAlpha w)) (Fields line)))"
    by (rule mapFn_map)
  show "Fields line =
     (case dropWhile isSpace line of
        [] \<Rightarrow> []
      | r # rs \<Rightarrow> takeWhile (\<lambda>x. \<not> isSpace x) (r # rs) #
                 Fields (dropWhile (\<lambda>x. \<not> isSpace x) (r # rs)))"
    by (rule Fields_unfold)
  show "\<forall>w \<in> set (Fields line). w \<noteq> [] \<and> (\<forall>r \<in> set w. \<not> isSpace r)"
    using Fields_field by blast
  show "\<forall>r \<in> set (mapFn line).
      count_wc r = 1 \<and> word r \<noteq> [] \<and> (\<forall>c \<in> set (word r). CHR ''a'' \<le> c \<and> c \<le> CHR ''z'')"
    using mapFn_record by blast
  show "mapFn (runes ''123 !!! --'') = []"
    by (simp add: mapFn_eval)
qed

theorem mapFn_tokens_witness:
  "Fields (runes ''The cat  sat.'') = [runes ''The'', runes ''cat'', runes ''sat.''] \<and>
   mapFn (runes ''The cat  sat.'') =
     [\<lparr>word = ''the'', count_wc = 1\<rparr>, \<lparr>word = ''cat'', count_wc = 1\<rparr>,
      \<lparr>word = ''sat'', count_wc = 1\<rparr>] \<and>
   list_all (\<lambda>r. \<not> isAlpha r) (runes ''12 !! -'') \<and>
   mapFn (runes ''12 !! -'') = []"
  using mapFn_tokens[of "runes ''The cat  sat.''"] mapFn_tokens[of "runes ''12 !! -''"]
  by (simp add: mapFn_eval)

section \<open>Correctness of heap.Push and heap.Pop\<close>

lemma nth_Swap:
  assumes "i < length h" "j < length h"
  shows "Swap h i j ! k = (if k = j then h ! i else if k = i then h ! j else h ! k)"
  using assms by (auto simp: Swap_def nth_list_update)

lemma mset_Swap:
  assumes "i < length h" "j < length h"
  shows "mset (Swap h i j) = mset h"
  using assms by (simp add: Swap_def mset_swap)

lemma parent_less: "0 < k \<Longrightarrow> parent k < k"
  unfolding parent_def by linarith

lemma parent_le: "parent k \<le> k"
  unfolding parent_def by linarith

lemma parent_eq_iff: "0 < k \<Longrightarrow> parent k = i \<longleftrightarrow> k = 2 * i + 1 \<or> k = 2 * i + 2"
  unfolding parent_def by linarith

lemma up_stop: "parent j = j \<or> \<not> Less h j (parent j) \<Longrightarrow> up h j = h"
  by (subst up.simps) (simp add: Let_def parent_def)

lemma up_step:
  "parent j \<noteq> j \<Longrightarrow> Less h j (parent j) \<Longrightarrow>
   up h j = up (Swap h (parent j) j) (parent j)"
  by (subst up.simps) (simp add: Let_def parent_def)

lemma up_inv_Swap:
  assumes inv: "up_inv h n j" and j: "j < n" and n: "n \<le> length h"
    and ne: "parent j \<noteq> j" and less: "Less h j (parent j)"
  shows "up_inv (Swap h (parent j) j) n (parent j)"
proof -
  define i where "i = parent j"
  have pj: "parent j = i" by (simp add: i_def)
  have ij: "i < j" using ne parent_le[of j] pj by linarith
  have il: "i < length h" and jl: "j < length h" using ij j n by auto
  have lt: "word (h ! j) < word (h ! i)" using less by (simp add: Less_def i_def)
  have A: "word (h ! (parent k)) \<le> word (h ! k)" if "0 < k" "k < n" "k \<noteq> j" for k
    using inv that by (simp add: up_inv_def)
  have B: "word (h ! i) \<le> word (h ! k)" if "0 < k" "k < n" "parent k = j" for k
    using inv that ij by (simp add: up_inv_def i_def)
  have nth: "Swap h i j ! k = (if k = j then h ! i else if k = i then h ! j else h ! k)" for k
    using il jl by (rule nth_Swap)
  have C: "word (Swap h i j ! (parent k)) \<le> word (Swap h i j ! k)"
    if k: "0 < k" "k < n" "k \<noteq> i" for k
  proof (cases "k = j")
    case True
    then show ?thesis using lt ij by (simp add: nth pj)
  next
    case False
    note kj = False
    show ?thesis
    proof (cases "parent k = j")
      case True
      then show ?thesis using B[of k] k kj by (simp add: nth)
    next
      case False
      note pkj = False
      show ?thesis
      proof (cases "parent k = i")
        case True
        have "word (h ! i) \<le> word (h ! k)" using A[of k] k kj True by simp
        then show ?thesis using True k kj lt pkj by (simp add: nth)
      next
        case False
        then show ?thesis using A[of k] k kj pkj by (simp add: nth)
      qed
    qed
  qed
  have D: "word (Swap h i j ! (parent i)) \<le> word (Swap h i j ! k)"
    if k: "0 < k" "k < n" "parent k = i" "0 < i" for k
  proof -
    have pi: "parent i < i" using k(4) by (rule parent_less)
    have ki: "k \<noteq> i" using k(1,3) parent_less[of k] by linarith
    have ple: "word (h ! (parent i)) \<le> word (h ! i)"
      using A[of i] k(4) ij j by simp
    have l: "Swap h i j ! (parent i) = h ! (parent i)"
      using pi ij by (simp add: nth)
    show ?thesis
    proof (cases "k = j")
      case True
      then show ?thesis using ple l ij by (simp add: nth)
    next
      case False
      have "word (h ! i) \<le> word (h ! k)" using A[of k] k False by simp
      with ple have "word (h ! (parent i)) \<le> word (h ! k)" by (rule order_trans)
      then show ?thesis using l False ki by (simp add: nth)
    qed
  qed
  show ?thesis
    unfolding up_inv_def i_def[symmetric] using C D by blast
qed

lemma up_heap_ok:
  "up_inv h n j \<Longrightarrow> j < n \<Longrightarrow> n \<le> length h \<Longrightarrow> heap_ok (up h j) n"
proof (induction h j rule: up.induct)
  case (1 h j)
  show ?case
  proof (cases "parent j = j \<or> \<not> Less h j (parent j)")
    case True
    have "word (h ! (parent k)) \<le> word (h ! k)" if "0 < k" "k < n" for k
    proof (cases "k = j")
      case True
      with that \<open>parent j = j \<or> \<not> Less h j (parent j)\<close> show ?thesis
        by (auto simp: Less_def)
    next
      case False
      with that "1.prems"(1) show ?thesis by (simp add: up_inv_def)
    qed
    then show ?thesis using True by (simp add: up_stop heap_ok_def)
  next
    case False
    then have ne: "parent j \<noteq> j" and less: "Less h j (parent j)" by auto
    have inv': "up_inv (Swap h (parent j) j) n (parent j)"
      using "1.prems" ne less by (intro up_inv_Swap)
    have "parent j < n" using "1.prems"(2) parent_le[of j] by linarith
    then have "heap_ok (up (Swap h (parent j) j) (parent j)) n"
      using False inv' "1.prems" by (intro "1.IH"[OF _ _]) (auto simp: length_Swap parent_def)
    then show ?thesis using ne less by (simp add: up_step)
  qed
qed

lemma mset_up: "j < length h \<Longrightarrow> mset (up h j) = mset h"
proof (induction h j rule: up.induct)
  case (1 h j)
  show ?case
  proof (cases "parent j = j \<or> \<not> Less h j (parent j)")
    case True
    then show ?thesis by (simp add: up_stop)
  next
    case False
    then have ne: "parent j \<noteq> j" and less: "Less h j (parent j)" by auto
    have lt: "parent j < length h" using "1.prems" parent_le[of j] by linarith
    have "mset (up (Swap h (parent j) j) (parent j)) = mset (Swap h (parent j) j)"
      using False lt by (intro "1.IH"[OF _ _]) (auto simp: length_Swap parent_def)
    then show ?thesis using ne less lt "1.prems" by (simp add: up_step mset_Swap)
  qed
qed

lemma down_keep: "2 * i + 1 < n \<Longrightarrow> \<not> Less h (child h i n) i \<Longrightarrow> down h i n = h"
  by (simp add: down_step[OF _ refl] child_def)

lemma down_swap:
  "2 * i + 1 < n \<Longrightarrow> Less h (child h i n) i \<Longrightarrow>
   down h i n = down (Swap h i (child h i n)) (child h i n) n"
  by (simp add: down_step[OF _ refl] child_def)

lemma down_induct [case_names step]:
  assumes "\<And>h i n.
     (2 * i + 1 < n \<Longrightarrow> Less h (child h i n) i \<Longrightarrow>
        P (Swap h i (child h i n)) (child h i n) n) \<Longrightarrow> P h i n"
  shows "P h i n"
proof (induction h i n rule: down.induct)
  case (1 h i n)
  show ?case
  proof (rule assms)
    assume "2 * i + 1 < n" "Less h (child h i n) i"
    then show "P (Swap h i (child h i n)) (child h i n) n"
      using "1.IH"[OF refl _ refl] by (auto simp: child_def split: if_splits)
  qed
qed

lemma child_bounds:
  assumes "2 * i + 1 < n"
  shows "i < child h i n" and "child h i n < n" and "parent (child h i n) = i"
  using assms by (auto simp: child_def parent_def)

lemma child_least:
  assumes n: "2 * i + 1 < n" and s: "0 < s" "s < n" "parent s = i"
  shows "word (h ! child h i n) \<le> word (h ! s)"
proof -
  from s(1,3) have "s = 2 * i + 1 \<or> s = 2 * i + 2" by (simp add: parent_eq_iff)
  then show ?thesis
  proof
    assume "s = 2 * i + 1"
    then show ?thesis by (auto simp: child_def Less_def)
  next
    assume "s = 2 * i + 2"
    then show ?thesis using s(2) by (auto simp: child_def Less_def)
  qed
qed

lemma down_inv_Swap:
  assumes inv: "down_inv h n i" and n: "n \<le> length h" and c: "2 * i + 1 < n"
    and less: "Less h (child h i n) i"
  shows "down_inv (Swap h i (child h i n)) n (child h i n)"
proof -
  define j where "j = child h i n"
  have ij: "i < j" and jn: "j < n" and pj: "parent j = i"
    using child_bounds[OF c, of h] by (simp_all add: j_def)
  have il: "i < length h" and jl: "j < length h" using ij jn n by auto
  have lt: "word (h ! j) < word (h ! i)" using less by (simp add: Less_def j_def)
  have least: "word (h ! j) \<le> word (h ! s)" if "0 < s" "s < n" "parent s = i" for s
    using child_least[OF c that] by (simp add: j_def)
  have A: "word (h ! parent k) \<le> word (h ! k)" if "0 < k" "k < n" "parent k \<noteq> i" for k
    using inv that by (simp add: down_inv_def)
  have B: "word (h ! parent i) \<le> word (h ! k)" if "0 < k" "k < n" "parent k = i" "0 < i" for k
    using inv that by (simp add: down_inv_def)
  have nth: "Swap h i j ! k = (if k = j then h ! i else if k = i then h ! j else h ! k)" for k
    using il jl by (rule nth_Swap)
  have C: "word (Swap h i j ! parent k) \<le> word (Swap h i j ! k)"
    if k: "0 < k" "k < n" "parent k \<noteq> j" for k
  proof (cases "k = j")
    case True
    then show ?thesis using lt ij pj by (simp add: nth)
  next
    case False
    note kj = False
    show ?thesis
    proof (cases "k = i")
      case True
      have "parent i < i" using k(1) True by (simp add: parent_less)
      then have "Swap h i j ! parent i = h ! parent i" using ij by (simp add: nth)
      moreover have "word (h ! parent i) \<le> word (h ! j)"
        using B[of j] ij jn pj k(1) True by simp
      ultimately show ?thesis using True ij by (simp add: nth)
    next
      case False
      note ki = False
      show ?thesis
      proof (cases "parent k = i")
        case True
        then show ?thesis using least[of k] k kj ki by (simp add: nth)
      next
        case False
        then show ?thesis using A[of k] k kj ki by (simp add: nth)
      qed
    qed
  qed
  have D: "word (Swap h i j ! parent j) \<le> word (Swap h i j ! k)"
    if k: "0 < k" "k < n" "parent k = j" for k
  proof -
    have "j < k" using parent_less[OF k(1)] k(3) by simp
    then have "k \<noteq> i" "k \<noteq> j" using ij by auto
    moreover have "word (h ! j) \<le> word (h ! k)" using A[of k] k ij by simp
    ultimately show ?thesis using ij pj by (simp add: nth)
  qed
  show ?thesis
    unfolding down_inv_def j_def[symmetric] using C D by blast
qed

lemma down_heap_ok: "down_inv h n i \<Longrightarrow> n \<le> length h \<Longrightarrow> heap_ok (down h i n) n"
proof (induction h i n rule: down_induct)
  case (step h i n)
  have A: "word (h ! parent k) \<le> word (h ! k)" if "0 < k" "k < n" "parent k \<noteq> i" for k
    using step.prems(1) that by (simp add: down_inv_def)
  show ?case
  proof (cases "n \<le> 2 * i + 1")
    case True
    have "word (h ! parent k) \<le> word (h ! k)" if k: "0 < k" "k < n" for k
    proof -
      have "parent k \<noteq> i" using True k by (auto simp: parent_eq_iff)
      then show ?thesis using A k by simp
    qed
    then show ?thesis using True by (simp add: down_stop heap_ok_def)
  next
    case False
    then have c: "2 * i + 1 < n" by simp
    show ?thesis
    proof (cases "Less h (child h i n) i")
      case True
      have "down_inv (Swap h i (child h i n)) n (child h i n)"
        using step.prems c True by (intro down_inv_Swap)
      then have "heap_ok (down (Swap h i (child h i n)) (child h i n) n) n"
        using c True step.prems(2) by (intro step.IH) (auto simp: length_Swap)
      then show ?thesis using c True by (simp add: down_swap)
    next
      case False
      have "word (h ! parent k) \<le> word (h ! k)" if k: "0 < k" "k < n" for k
      proof (cases "parent k = i")
        case True
        have "word (h ! i) \<le> word (h ! child h i n)" using False by (simp add: Less_def)
        also have "\<dots> \<le> word (h ! k)" using child_least[OF c k True] .
        finally show ?thesis using True by simp
      next
        case False
        then show ?thesis using A k by simp
      qed
      then show ?thesis using c False by (simp add: down_keep heap_ok_def)
    qed
  qed
qed

lemma mset_down: "n \<le> length h \<Longrightarrow> mset (down h i n) = mset h"
proof (induction h i n rule: down_induct)
  case (step h i n)
  show ?case
  proof (cases "2 * i + 1 < n \<and> Less h (child h i n) i")
    case True
    then have c: "2 * i + 1 < n" and less: "Less h (child h i n) i" by auto
    have b: "i < length h" "child h i n < length h"
      using child_bounds[OF c, of h] step.prems by auto
    have "mset (down (Swap h i (child h i n)) (child h i n) n) = mset (Swap h i (child h i n))"
      using c less step.prems by (intro step.IH) (auto simp: length_Swap)
    then show ?thesis using c less b by (simp add: down_swap mset_Swap)
  next
    case False
    then have "down h i n = h"
      by (cases "2 * i + 1 < n") (auto simp: down_keep down_stop)
    then show ?thesis by simp
  qed
qed

lemma down_nth_ge: "n \<le> length h \<Longrightarrow> n \<le> k \<Longrightarrow> down h i n ! k = h ! k"
proof (induction h i n rule: down_induct)
  case (step h i n)
  show ?case
  proof (cases "2 * i + 1 < n \<and> Less h (child h i n) i")
    case True
    then have c: "2 * i + 1 < n" and less: "Less h (child h i n) i" by auto
    have b: "i < child h i n" "child h i n < n"
      using child_bounds[OF c, of h] by auto
    have "down (Swap h i (child h i n)) (child h i n) n ! k = Swap h i (child h i n) ! k"
      using c less step.prems by (intro step.IH) (auto simp: length_Swap)
    also have "\<dots> = h ! k"
      using b step.prems by (simp add: nth_Swap)
    finally show ?thesis using c less by (simp add: down_swap)
  next
    case False
    then have "down h i n = h"
      by (cases "2 * i + 1 < n") (auto simp: down_keep down_stop)
    then show ?thesis by simp
  qed
qed


lemma heap_ok_root:
  assumes "heap_ok h n"
  shows "k < n \<Longrightarrow> word (h ! 0) \<le> word (h ! k)"
proof (induction k rule: less_induct)
  case (less k)
  show ?case
  proof (cases "k = 0")
    case True
    then show ?thesis by simp
  next
    case False
    then have p: "parent k < k" by (simp add: parent_less)
    have "word (h ! 0) \<le> word (h ! parent k)"
      using less.IH[OF p] p less.prems by simp
    also have "\<dots> \<le> word (h ! k)"
      using assms False less.prems by (simp add: heap_ok_def)
    finally show ?thesis .
  qed
qed

lemma heap_ok_take:
  assumes "heap_ok h n"
  shows "heap_ok (take n h) n"
proof -
  have "word (take n h ! parent k) \<le> word (take n h ! k)" if k: "0 < k" "k < n" for k
  proof -
    have "parent k < n" using parent_le[of k] k(2) by linarith
    then show ?thesis using assms k by (simp add: heap_ok_def)
  qed
  then show ?thesis by (simp add: heap_ok_def)
qed

lemma length_heap_Push: "length (heap_Push h x) = Suc (length h)"
  by (simp add: heap_Push_def Push_def Len_def Let_def length_up)

lemma mset_heap_Push: "mset (heap_Push h x) = add_mset x (mset h)"
  by (simp add: heap_Push_def Push_def Len_def Let_def mset_up)

lemma heap_ok_heap_Push:
  assumes "heap_ok h (length h)"
  shows "heap_ok (heap_Push h x) (length (heap_Push h x))"
proof -
  let ?n = "length h"
  have "word ((h @ [x]) ! parent k) \<le> word ((h @ [x]) ! k)" if "0 < k" "k < Suc ?n" "k \<noteq> ?n" for k
  proof -
    have "k < ?n" using that by simp
    moreover have "parent k < ?n" using parent_le[of k] \<open>k < ?n\<close> by linarith
    ultimately show ?thesis using assms that(1) by (simp add: nth_append heap_ok_def)
  qed
  moreover have "\<not> (0 < k \<and> k < Suc ?n \<and> parent k = ?n \<and> 0 < ?n)" for k
  proof
    assume a: "0 < k \<and> k < Suc ?n \<and> parent k = ?n \<and> 0 < ?n"
    then have "parent k < k" by (intro parent_less) simp
    with a show False by linarith
  qed
  ultimately have "up_inv (h @ [x]) (Suc ?n) ?n"
    unfolding up_inv_def by blast
  then have "heap_ok (up (h @ [x]) ?n) (Suc ?n)"
    by (rule up_heap_ok) simp_all
  then show ?thesis
    by (simp add: heap_Push_def Push_def Len_def Let_def length_up)
qed

lemma heap_Pop_empty: "heap_Pop [] = Inl IndexOutOfRange"
  by (simp add: heap_Pop_def Len_def)

lemma heap_Pop_nonempty:
  assumes "h \<noteq> []"
  shows "heap_Pop h =
    Inr (h ! 0, take (length h - 1) (down (Swap h 0 (length h - 1)) 0 (length h - 1)))"
proof -
  let ?n = "length h - 1"
  have n: "?n < length h" using assms by simp
  have "down (Swap h 0 ?n) 0 ?n ! ?n = Swap h 0 ?n ! ?n"
    by (rule down_nth_ge) (simp_all add: length_Swap)
  also have "\<dots> = h ! 0" using n assms by (simp add: nth_Swap)
  finally have "down (Swap h 0 ?n) 0 ?n ! ?n = h ! 0" .
  moreover have "down (Swap h 0 ?n) 0 ?n \<noteq> []"
    using assms by (simp add: length_down length_Swap flip: length_greater_0_conv)
  ultimately show ?thesis
    using assms by (simp add: heap_Pop_def Pop_def Len_def Let_def length_down length_Swap)
qed

lemma heap_ok_heap_Pop:
  assumes ok: "heap_ok h (length h)" and pop: "heap_Pop h = Inr (x, h')"
  shows "heap_ok h' (length h')"
proof -
  let ?n = "length h - 1"
  have ne: "h \<noteq> []" using pop by (auto simp: heap_Pop_empty)
  then have n: "?n < length h" by simp
  have h': "h' = take ?n (down (Swap h 0 ?n) 0 ?n)"
    using pop by (simp add: heap_Pop_nonempty[OF ne])
  have "word (Swap h 0 ?n ! parent k) \<le> word (Swap h 0 ?n ! k)"
    if k: "0 < k" "k < ?n" "parent k \<noteq> 0" for k
  proof -
    have "parent k < k" using k(1) by (rule parent_less)
    then have "Swap h 0 ?n ! parent k = h ! parent k" "Swap h 0 ?n ! k = h ! k"
      using k n ne by (simp_all add: nth_Swap)
    then show ?thesis using ok k by (simp add: heap_ok_def)
  qed
  then have "down_inv (Swap h 0 ?n) ?n 0"
    unfolding down_inv_def by blast
  then have "heap_ok (down (Swap h 0 ?n) 0 ?n) ?n"
    by (rule down_heap_ok) (simp add: length_Swap)
  then have "heap_ok h' ?n"
    unfolding h' by (rule heap_ok_take)
  then show ?thesis
    by (simp add: h' length_down length_Swap)
qed

lemma mset_heap_Pop:
  assumes pop: "heap_Pop h = Inr (x, h')"
  shows "mset h = add_mset x (mset h')"
proof -
  let ?n = "length h - 1"
  let ?d = "down (Swap h 0 ?n) 0 ?n"
  have ne: "h \<noteq> []" using pop by (auto simp: heap_Pop_empty)
  then have n: "?n < length h" by simp
  have len: "length ?d = Suc ?n" using ne by (simp add: length_down length_Swap)
  have "?d \<noteq> []" using len by auto
  then have "heap_Pop h = Inr (?d ! ?n, take ?n ?d)"
    using ne by (simp add: heap_Pop_def Pop_def Len_def Let_def length_down length_Swap)
  then have x: "x = ?d ! ?n" and h': "h' = take ?n ?d" using pop by simp_all
  have "?d = take ?n ?d @ [?d ! ?n]"
    using len by (metis lessI take_Suc_conv_app_nth take_all order_refl)
  then have "mset ?d = mset (take ?n ?d @ [?d ! ?n])" by simp
  then have "mset ?d = add_mset x (mset h')"
    using x h' by simp
  moreover have "mset ?d = mset h"
    using n ne by (simp add: mset_down mset_Swap length_Swap)
  ultimately show ?thesis by simp
qed

lemma heap_Pop_least:
  assumes ok: "heap_ok h (length h)" and pop: "heap_Pop h = Inr (x, h')"
  shows "\<forall>y \<in> set h. word x \<le> word y"
proof
  fix y assume "y \<in> set h"
  then obtain k where k: "k < length h" "y = h ! k" by (auto simp: in_set_conv_nth)
  have ne: "h \<noteq> []" using pop by (auto simp: heap_Pop_empty)
  have "x = h ! 0" using pop by (simp add: heap_Pop_nonempty[OF ne])
  then show "word x \<le> word y" using heap_ok_root[OF ok k(1)] k(2) by simp
qed

section \<open>Correctness of the sorter\<close>

lemma sorter_drain_background:
  "sorter_drain background k h input = (map Recv input, Inr (foldl heap_Push h input))"
  by (induction input arbitrary: k h) (simp_all add: background_def)

lemma heap_ok_foldl_heap_Push:
  "heap_ok h (length h) \<Longrightarrow>
   heap_ok (foldl heap_Push h xs) (length (foldl heap_Push h xs))"
  by (induction xs arbitrary: h) (simp_all add: heap_ok_heap_Push)

lemma mset_foldl_heap_Push: "mset (foldl heap_Push h xs) = mset h + mset xs"
  by (induction xs arbitrary: h) (simp_all add: mset_heap_Push)

lemma sorter_emit_Nil: "sorter_emit ctx k [] = ([], None)"
  by (subst sorter_emit.simps) (simp add: Len_def)

lemma sorter_emit_background_step:
  assumes "heap_Pop h = Inr (x, h')"
  shows "sorter_emit background k h =
    (Send x # fst (sorter_emit background (Suc k) h'), snd (sorter_emit background (Suc k) h'))"
proof -
  have "h \<noteq> []" using assms by (auto simp: heap_Pop_empty)
  then show ?thesis
    using assms
    by (subst sorter_emit.simps) (simp add: Len_def background_def split: prod.splits)
qed

lemma sorter_emit_background:
  "heap_ok h (length h) \<Longrightarrow>
   \<exists>out. sorter_emit background k h = (map Send out, None) \<and>
         mset out = mset h \<and> sorted (map word out)"
proof (induction "length h" arbitrary: h k)
  case 0
  then show ?case by (simp add: sorter_emit_Nil)
next
  case (Suc n)
  then have ne: "h \<noteq> []" by auto
  then obtain x h' where pop: "heap_Pop h = Inr (x, h')"
    by (simp add: heap_Pop_nonempty)
  have len: "n = length h'" using heap_Pop_length[OF pop] Suc.hyps(2) by simp
  have ok': "heap_ok h' (length h')" using Suc.prems pop by (rule heap_ok_heap_Pop)
  from Suc.hyps(1)[OF len ok', of "Suc k"] obtain out where
    out: "sorter_emit background (Suc k) h' = (map Send out, None)"
      "mset out = mset h'" "sorted (map word out)"
    by blast
  have m: "mset h = add_mset x (mset h')" using pop by (rule mset_heap_Pop)
  have "set out \<subseteq> set h"
    using m out(2) by (metis mset_eq_setD set_mset_add_mset_insert set_mset_mset subset_insertI)
  then have least: "\<forall>y \<in> set out. word x \<le> word y"
    using heap_Pop_least[OF Suc.prems pop] by blast
  have "sorter_emit background k h = (map Send (x # out), None)"
    using out(1) by (simp add: sorter_emit_background_step[OF pop])
  moreover have "mset (x # out) = mset h" using m out(2) by simp
  moreover have "sorted (map word (x # out))" using least out(3) by simp
  ultimately show ?case by blast
qed

lemma sent_map_Recv: "sent (map Recv xs) = []"
  by (induction xs) simp_all

lemma sent_map_Send: "sent (map Send xs) = xs"
  by (induction xs) simp_all

lemma sent_append: "sent (s @ t) = sent s @ sent t"
  by (induction s rule: sent.induct) simp_all

lemma heap_ok_Nil: "heap_ok [] 0"
  by (simp add: heap_ok_def)

lemma sorter_background:
  "\<exists>out. sorter background input = (out, None) \<and>
         mset out = mset input \<and>
         sorted (map word out) \<and>
         fst (sorter_trace background input) = map Recv input @ map Send out"
proof -
  let ?h = "foldl heap_Push [] input"
  have "heap_ok ?h (length ?h)"
    by (rule heap_ok_foldl_heap_Push) (simp add: heap_ok_Nil)
  from sorter_emit_background[OF this, of "length input"] obtain out where
    out: "sorter_emit background (length input) ?h = (map Send out, None)"
      "mset out = mset ?h" "sorted (map word out)"
    by blast
  have t: "sorter_trace background input = (map Recv input @ map Send out, None)"
    using out(1) by (simp add: sorter_trace_def sorter_drain_background)
  then have "sorter background input = (out, None)"
    by (simp add: sorter_def sent_append sent_map_Recv sent_map_Send)
  moreover have "mset out = mset input"
    using out(2) by (simp add: mset_foldl_heap_Push)
  ultimately show ?thesis using out(3) t by auto
qed

text \<open>
  C7. In a run that is not cancelled, on every finite input the sorter sends a permutation
  of the records it received (the same multiset), in non-decreasing order of the word,
  and returns no error; and on its two channels it first receives the whole input and only
  then sends: no record is sent before the last one is received.
\<close>

theorem sorter_sorted_permutation:
  "\<exists>out. sorter background input = (out, None) \<and>
         mset out = mset input \<and>
         sorted (map word out) \<and>
         fst (sorter_trace background input) = map Recv input @ map Send out"
  by (rule sorter_background)

section \<open>The root of the heap\<close>

lemma run_ops_heap_ok:
  "heap_ok h (length h) \<Longrightarrow> run_ops h ops = Inr h' \<Longrightarrow> heap_ok h' (length h')"
proof (induction h ops rule: run_ops.induct)
  case (1 h)
  then show ?case by simp
next
  case (2 h x ops)
  then show ?case by (simp add: heap_ok_heap_Push)
next
  case (3 h ops)
  then show ?case
    by (auto split: sum.splits dest: heap_ok_heap_Pop)
qed

text \<open>
  C8. After any sequence of \<^verbatim>\<open>heap.Push\<close> and \<^verbatim>\<open>heap.Pop\<close> operations, started on the
  empty heap and run without a panic, a heap that is not empty has at its root (index 0) a
  record whose word is less than or equal to the word of every record in the heap.
\<close>

theorem heap_root_least:
  assumes "run_ops [] ops = Inr h" and "h \<noteq> []"
  shows "\<forall>x \<in> set h. word (h ! 0) \<le> word x"
proof
  fix x assume "x \<in> set h"
  then obtain k where k: "k < length h" "x = h ! k" by (auto simp: in_set_conv_nth)
  have "heap_ok h (length h)"
    using heap_ok_Nil assms(1) by (intro run_ops_heap_ok[of "[]" ops h]) simp_all
  then show "word (h ! 0) \<le> word x" using k by (simp add: heap_ok_root)
qed

theorem heap_root_least_witness:
  "run_ops [] [OpPush \<lparr>word = ''the'', count_wc = 1\<rparr>, OpPush \<lparr>word = ''cat'', count_wc = 1\<rparr>,
               OpPush \<lparr>word = ''sat'', count_wc = 1\<rparr>, OpPop]
     = Inr [\<lparr>word = ''sat'', count_wc = 1\<rparr>, \<lparr>word = ''the'', count_wc = 1\<rparr>] \<and>
   word ([\<lparr>word = ''sat'', count_wc = 1\<rparr>, \<lparr>word = ''the'', count_wc = 1\<rparr>] ! 0) \<le> ''sat'' \<and>
   word ([\<lparr>word = ''sat'', count_wc = 1\<rparr>, \<lparr>word = ''the'', count_wc = 1\<rparr>] ! 0) \<le> ''the''"
proof -
  have r: "run_ops [] [OpPush \<lparr>word = ''the'', count_wc = 1\<rparr>, OpPush \<lparr>word = ''cat'', count_wc = 1\<rparr>,
               OpPush \<lparr>word = ''sat'', count_wc = 1\<rparr>, OpPop]
     = Inr [\<lparr>word = ''sat'', count_wc = 1\<rparr>, \<lparr>word = ''the'', count_wc = 1\<rparr>]"
    by code_simp
  from heap_root_least[OF r] show ?thesis using r by simp
qed

section \<open>The reducer\<close>

lemma reducer_body_new:
  "word wc \<noteq> word inp \<Longrightarrow>
   reducer_body wc inp =
     (if word wc \<noteq> [] then Some wc else None, inp\<lparr>count_wc := count_wc inp + count_wc inp\<rparr>)"
  by (simp add: reducer_body_def)

lemma reducer_body_same:
  "word wc = word inp \<Longrightarrow>
   reducer_body wc inp = (None, wc\<lparr>count_wc := count_wc wc + count_wc inp\<rparr>)"
  by (simp add: reducer_body_def)

lemma reducer_body_word: "word (snd (reducer_body wc inp)) = word inp"
  by (cases "word wc = word inp") (simp_all add: reducer_body_new reducer_body_same)

lemma reducer_body_emit:
  "fst (reducer_body wc inp) = Some r \<Longrightarrow> r = wc \<and> word wc \<noteq> [] \<and> word wc \<noteq> word inp"
  by (cases "word wc = word inp")
     (auto simp: reducer_body_new reducer_body_same split: if_splits)

text \<open>Every record the reducer sends has a non-empty word, whatever it receives.\<close>

lemma reducer_loop_nonempty:
  "r \<in> set (fst (reducer_loop ctx k wc input)) \<Longrightarrow> word r \<noteq> []"
proof (induction input arbitrary: k wc)
  case Nil
  then show ?case by simp
next
  case (Cons inp input)
  obtain e wc' where b: "reducer_body wc inp = (e, wc')" by (cases "reducer_body wc inp")
  show ?case
  proof (cases e)
    case None
    with Cons b show ?thesis by simp
  next
    case (Some x)
    then have x: "x = wc" "word wc \<noteq> []" using reducer_body_emit[of wc inp x] b by simp_all
    show ?thesis
    proof (cases "ctx k")
      case True
      with Cons.prems b Some show ?thesis by simp
    next
      case False
      with Cons.prems b Some have "r = x \<or> r \<in> set (fst (reducer_loop ctx (Suc k) wc' input))"
        by (auto split: prod.splits)
      then show ?thesis using x Cons.IH by auto
    qed
  qed
qed

text \<open>
  Records with the empty word at the head of the input leave the accumulator's word
  empty, so that nothing is sent for them.
\<close>

lemma reducer_loop_sentinel_count:
  "word wc = [] \<Longrightarrow> word wc' = [] \<Longrightarrow>
   reducer_loop ctx k wc input = reducer_loop ctx k wc' input"
proof (induction input arbitrary: wc wc')
  case Nil
  then show ?case by simp
next
  case (Cons inp input)
  show ?case
  proof (cases "word inp = []")
    case True
    have "reducer_loop ctx k (wc\<lparr>count_wc := count_wc wc + count_wc inp\<rparr>) input =
          reducer_loop ctx k (wc'\<lparr>count_wc := count_wc wc' + count_wc inp\<rparr>) input"
      using Cons.prems by (intro Cons.IH) simp_all
    then show ?thesis using True Cons.prems by (simp add: reducer_body_same)
  next
    case False
    then show ?thesis using Cons.prems by (simp add: reducer_body_new)
  qed
qed

lemma reducer_loop_empty_prefix:
  "\<forall>e \<in> set es. word e = [] \<Longrightarrow> word wc = [] \<Longrightarrow>
   reducer_loop ctx k wc (es @ input) = reducer_loop ctx k wc input"
proof (induction es arbitrary: wc)
  case Nil
  then show ?case by simp
next
  case (Cons e es)
  have "reducer_loop ctx k wc ((e # es) @ input) =
        reducer_loop ctx k (wc\<lparr>count_wc := count_wc wc + count_wc e\<rparr>) (es @ input)"
    using Cons.prems by (simp add: reducer_body_same)
  also have "\<dots> = reducer_loop ctx k (wc\<lparr>count_wc := count_wc wc + count_wc e\<rparr>) input"
    using Cons.prems by (intro Cons.IH) simp_all
  also have "\<dots> = reducer_loop ctx k wc input"
    using Cons.prems by (intro reducer_loop_sentinel_count) simp_all
  finally show ?case .
qed

text \<open>On an input sorted by word, the words sent are strictly increasing.\<close>

lemma reducer_loop_strict:
  "sorted (map word (wc # input)) \<Longrightarrow>
   sorted_wrt (<) (map word (fst (reducer_loop background k wc input))) \<and>
   (\<forall>r \<in> set (fst (reducer_loop background k wc input)). word wc \<le> word r)"
proof (induction input arbitrary: k wc)
  case Nil
  then show ?case by simp
next
  case (Cons inp input)
  obtain e wc' where b: "reducer_body wc inp = (e, wc')" by (cases "reducer_body wc inp")
  have w': "word wc' = word inp" using reducer_body_word[of wc inp] b by simp
  have le: "word wc \<le> word inp" using Cons.prems by simp
  have "sorted (map word (wc' # input))" using Cons.prems w' by simp
  note IH = Cons.IH[OF this]
  show ?case
  proof (cases e)
    case None
    have "reducer_loop background k wc (inp # input) = reducer_loop background k wc' input"
      using b None by simp
    then show ?thesis using IH[of k] le w' by auto
  next
    case (Some x)
    then have x: "x = wc" "word wc \<noteq> word inp" using reducer_body_emit[of wc inp x] b by simp_all
    then have lt: "word wc < word inp" using le by simp
    have "fst (reducer_loop background k wc (inp # input)) =
          wc # fst (reducer_loop background (Suc k) wc' input)"
      using b Some x by (simp add: background_def split: prod.splits)
    then show ?thesis using IH[of "Suc k"] lt w' by auto
  qed
qed

lemma reducer_strict:
  assumes "sorted (map word input)"
  shows "sorted_wrt (<) (map word (fst (reducer background input)))"
proof -
  have "sorted (map word (\<lparr>word = [], count_wc = 0\<rparr> # input))"
    using assms by simp
  then show ?thesis unfolding reducer_def by (intro reducer_loop_strict[THEN conjunct1])
qed


text \<open>
  C3, as the code behaves. When the word of the record received differs from the
  accumulator's word (or no accumulator is held), the accumulator is sent if it is held,
  and the new accumulator takes the word of the record but twice its count, because
  \<^verbatim>\<open>wc.count += in.count\<close> also runs after \<^verbatim>\<open>wc = in\<close>; when the words are equal, the count
  of the record is added to the accumulator and nothing is sent. From the zero value, the
  record \<open>(a, 1)\<close> leaves the accumulator \<open>(a, 2)\<close>, and the record \<open>(b, 1)\<close> after it sends
  \<open>(a, 2)\<close> and leaves \<open>(b, 2)\<close>.
\<close>

theorem reducer_body_counts_first_record_twice:
  "reducer_body wc inp =
     (if word wc \<noteq> word inp
      then (if word wc \<noteq> [] then Some wc else None,
            inp\<lparr>count_wc := count_wc inp + count_wc inp\<rparr>)
      else (None, wc\<lparr>count_wc := count_wc wc + count_wc inp\<rparr>)) \<and>
   reducer_body \<lparr>word = [], count_wc = 0\<rparr> \<lparr>word = ''a'', count_wc = 1\<rparr>
     = (None, \<lparr>word = ''a'', count_wc = 2\<rparr>) \<and>
   reducer_body \<lparr>word = ''a'', count_wc = 2\<rparr> \<lparr>word = ''b'', count_wc = 1\<rparr>
     = (Some \<lparr>word = ''a'', count_wc = 2\<rparr>, \<lparr>word = ''b'', count_wc = 2\<rparr>)"
  by (simp add: reducer_body_def)

text \<open>
  C4, as the code behaves. When the input ends, the reducer returns without sending the
  accumulator \<open>wc\<close> it holds, whatever it is: on the one record \<open>(a, 1)\<close>, in a run that is
  not cancelled, nothing is sent at all.
\<close>

theorem reducer_drops_last_group:
  "reducer_loop ctx k wc [] = ([], None) \<and>
   reducer background [\<lparr>word = ''a'', count_wc = 1\<rparr>] = ([], None)"
  by (simp add: reducer_def reducer_body_def)

text \<open>
  C10. The reducer tests \<^verbatim>\<open>wc.word != ""\<close> to know whether it holds an accumulator. So
  when every record received has a non-empty word, every record sent has a non-empty word
  (in any run, cancelled or not); and records with the empty word at the head of the
  input are taken for the absence of an accumulator: the run is the same as without them,
  and no group is sent for the empty word.
\<close>

theorem reducer_empty_word_is_sentinel:
  "((\<forall>r \<in> set input. word r \<noteq> []) \<longrightarrow> (\<forall>r \<in> set (fst (reducer ctx input)). word r \<noteq> [])) \<and>
   ((\<forall>e \<in> set es. word e = []) \<longrightarrow> reducer ctx (es @ input) = reducer ctx input)"
  by (auto simp: reducer_def reducer_loop_empty_prefix dest: reducer_loop_nonempty)

theorem reducer_empty_word_is_sentinel_witness:
  "word \<lparr>word = ''a'', count_wc = 1\<rparr> \<noteq> [] \<and> word \<lparr>word = ''b'', count_wc = 1\<rparr> \<noteq> [] \<and>
   fst (reducer background [\<lparr>word = ''a'', count_wc = 1\<rparr>, \<lparr>word = ''b'', count_wc = 1\<rparr>])
     = [\<lparr>word = ''a'', count_wc = 2\<rparr>] \<and>
   word \<lparr>word = ''a'', count_wc = 2\<rparr> \<noteq> [] \<and>
   word \<lparr>word = [], count_wc = 5\<rparr> = [] \<and>
   reducer background ([\<lparr>word = [], count_wc = 5\<rparr>] @
       [\<lparr>word = ''a'', count_wc = 1\<rparr>, \<lparr>word = ''b'', count_wc = 1\<rparr>])
     = reducer background [\<lparr>word = ''a'', count_wc = 1\<rparr>, \<lparr>word = ''b'', count_wc = 1\<rparr>]"
  using reducer_empty_word_is_sentinel
    [of "[\<lparr>word = ''a'', count_wc = 1\<rparr>, \<lparr>word = ''b'', count_wc = 1\<rparr>]" background
        "[\<lparr>word = [], count_wc = 5\<rparr>]"]
  by (simp add: reducer_def reducer_body_def background_def)

section \<open>The pipeline\<close>

text \<open>
  In a run that is not cancelled no stage returns an error, and the mapper sends the
  records of \<open>fn\<close> for every line, in the order of the lines.
\<close>

lemma mapper_inner_background: "mapper_inner background k wcs = (wcs, None)"
  by (induction wcs arbitrary: k) (simp_all add: background_def)

lemma mapper_loop_background: "mapper_loop background k input fn = (concat (map fn input), None)"
  by (induction input arbitrary: k) (simp_all add: mapper_inner_background)

lemma mapper_background: "mapper background input fn = (concat (map fn input), None)"
  by (simp add: mapper_def mapper_loop_background)

lemma reducer_loop_background_error: "snd (reducer_loop background k wc input) = None"
proof (induction input arbitrary: k wc)
  case Nil
  then show ?case by simp
next
  case (Cons inp input)
  obtain e wc' where b: "reducer_body wc inp = (e, wc')" by (cases "reducer_body wc inp")
  show ?case
  proof (cases e)
    case None
    with b Cons show ?thesis by simp
  next
    case (Some r)
    with b Cons[of "Suc k" wc'] show ?thesis
      by (auto simp: background_def split: prod.splits)
  qed
qed

lemma reducer_background_error: "snd (reducer background input) = None"
  by (simp add: reducer_def reducer_loop_background_error)

text \<open>
  C5. For every input, the words of the records the pipeline prints are strictly
  increasing in the byte order of strings; no word is printed twice.
\<close>

theorem pipeline_words_strictly_increasing:
  "sorted_wrt (<) (map word (pipeline input)) \<and> distinct (map word (pipeline input))"
proof -
  obtain out where out:
    "sorter background (fst (mapper background input mapFn)) = (out, None)"
    "sorted (map word out)"
    using sorter_background[of "fst (mapper background input mapFn)"] by blast
  have "pipeline input = fst (reducer background out)"
    by (simp add: pipeline_def out(1))
  then have "sorted_wrt (<) (map word (pipeline input))"
    using reducer_strict[OF out(2)] by simp
  then show ?thesis by (simp add: strict_sorted_iff)
qed

text \<open>
  C9. On an empty input (no line) nothing is printed: the mapper sends no record, the
  sorter receives and sends nothing and its heap stays empty, and the reducer sends
  nothing; no stage returns an error.
\<close>

theorem pipeline_empty_input:
  "pipeline [] = [] \<and>
   mapper background [] mapFn = ([], None) \<and>
   sorter_drain background 0 [] [] = ([], Inr []) \<and>
   sorter_trace background [] = ([], None) \<and>
   sorter background [] = ([], None) \<and>
   reducer background [] = ([], None)"
  by (simp add: pipeline_def mapper_def sorter_def sorter_trace_def reducer_def
      sorter_emit_Nil)

subsection \<open>The example of the specification\<close>

lemma mapFn_line1:
  "mapFn (runes ''The cat sat.'') =
     [\<lparr>word = ''the'', count_wc = 1\<rparr>, \<lparr>word = ''cat'', count_wc = 1\<rparr>,
      \<lparr>word = ''sat'', count_wc = 1\<rparr>]"
  by (simp add: mapFn_eval)

lemma mapFn_line2:
  "mapFn (runes ''The dog sat on the cat.'') =
     [\<lparr>word = ''the'', count_wc = 1\<rparr>, \<lparr>word = ''dog'', count_wc = 1\<rparr>,
      \<lparr>word = ''sat'', count_wc = 1\<rparr>, \<lparr>word = ''on'', count_wc = 1\<rparr>,
      \<lparr>word = ''the'', count_wc = 1\<rparr>, \<lparr>word = ''cat'', count_wc = 1\<rparr>]"
  by (simp add: mapFn_eval)

lemma mapper_example:
  "mapper background [runes ''The cat sat.'', runes ''The dog sat on the cat.''] mapFn =
     ([\<lparr>word = ''the'', count_wc = 1\<rparr>, \<lparr>word = ''cat'', count_wc = 1\<rparr>,
       \<lparr>word = ''sat'', count_wc = 1\<rparr>,
       \<lparr>word = ''the'', count_wc = 1\<rparr>, \<lparr>word = ''dog'', count_wc = 1\<rparr>,
       \<lparr>word = ''sat'', count_wc = 1\<rparr>, \<lparr>word = ''on'', count_wc = 1\<rparr>,
       \<lparr>word = ''the'', count_wc = 1\<rparr>, \<lparr>word = ''cat'', count_wc = 1\<rparr>], None)"
  by (simp add: mapper_def mapFn_line1 mapFn_line2 background_def)

lemma sorter_example:
  "sorter background
      [\<lparr>word = ''the'', count_wc = 1\<rparr>, \<lparr>word = ''cat'', count_wc = 1\<rparr>,
       \<lparr>word = ''sat'', count_wc = 1\<rparr>,
       \<lparr>word = ''the'', count_wc = 1\<rparr>, \<lparr>word = ''dog'', count_wc = 1\<rparr>,
       \<lparr>word = ''sat'', count_wc = 1\<rparr>, \<lparr>word = ''on'', count_wc = 1\<rparr>,
       \<lparr>word = ''the'', count_wc = 1\<rparr>, \<lparr>word = ''cat'', count_wc = 1\<rparr>] =
     ([\<lparr>word = ''cat'', count_wc = 1\<rparr>, \<lparr>word = ''cat'', count_wc = 1\<rparr>,
       \<lparr>word = ''dog'', count_wc = 1\<rparr>, \<lparr>word = ''on'', count_wc = 1\<rparr>,
       \<lparr>word = ''sat'', count_wc = 1\<rparr>, \<lparr>word = ''sat'', count_wc = 1\<rparr>,
       \<lparr>word = ''the'', count_wc = 1\<rparr>, \<lparr>word = ''the'', count_wc = 1\<rparr>,
       \<lparr>word = ''the'', count_wc = 1\<rparr>], None)"
  by code_simp

lemma reducer_example:
  "reducer background
     [\<lparr>word = ''cat'', count_wc = 1\<rparr>, \<lparr>word = ''cat'', count_wc = 1\<rparr>,
       \<lparr>word = ''dog'', count_wc = 1\<rparr>, \<lparr>word = ''on'', count_wc = 1\<rparr>,
       \<lparr>word = ''sat'', count_wc = 1\<rparr>, \<lparr>word = ''sat'', count_wc = 1\<rparr>,
       \<lparr>word = ''the'', count_wc = 1\<rparr>, \<lparr>word = ''the'', count_wc = 1\<rparr>,
       \<lparr>word = ''the'', count_wc = 1\<rparr>] =
     ([\<lparr>word = ''cat'', count_wc = 3\<rparr>, \<lparr>word = ''dog'', count_wc = 2\<rparr>,
       \<lparr>word = ''on'', count_wc = 2\<rparr>, \<lparr>word = ''sat'', count_wc = 3\<rparr>], None)"
  by (simp add: reducer_def reducer_body_def background_def)


lemma pipeline_example:
  "pipeline [runes ''The cat sat.'', runes ''The dog sat on the cat.''] =
     [\<lparr>word = ''cat'', count_wc = 3\<rparr>, \<lparr>word = ''dog'', count_wc = 2\<rparr>,
      \<lparr>word = ''on'', count_wc = 2\<rparr>, \<lparr>word = ''sat'', count_wc = 3\<rparr>]"
  by (simp add: pipeline_def mapper_example sorter_example reducer_example)

lemma reference_tokens_example:
  "reference_tokens [runes ''The cat sat.'', runes ''The dog sat on the cat.''] =
     [''the'', ''cat'', ''sat'', ''the'', ''dog'', ''sat'', ''on'', ''the'', ''cat'']"
  by (simp add: reference_tokens_def mapFn_eval)

text \<open>
  C1, as the code behaves. On the lines \<open>The cat sat.\<close> and \<open>The dog sat on the cat.\<close>
  the reference counts \<open>the\<close> three times and \<open>cat\<close> twice, nine tokens in all; the
  records the pipeline prints sum to 0 for \<open>the\<close> and to 3 for \<open>cat\<close>, and to 10 in all.
\<close>

theorem pipeline_differs_from_reference:
  "reference_count [runes ''The cat sat.'', runes ''The dog sat on the cat.''] ''the'' = 3 \<and>
   summed_count (pipeline [runes ''The cat sat.'', runes ''The dog sat on the cat.'']) ''the'' = 0 \<and>
   reference_count [runes ''The cat sat.'', runes ''The dog sat on the cat.''] ''cat'' = 2 \<and>
   summed_count (pipeline [runes ''The cat sat.'', runes ''The dog sat on the cat.'']) ''cat'' = 3 \<and>
   length (reference_tokens [runes ''The cat sat.'', runes ''The dog sat on the cat.'']) = 9 \<and>
   sum_list (map count_wc (pipeline [runes ''The cat sat.'', runes ''The dog sat on the cat.''])) = 10"
  by (simp add: reference_count_def reference_tokens_example summed_count_def pipeline_example)

text \<open>
  C2, as the code behaves. On the lines \<open>The cat sat.\<close> and \<open>The dog sat on the cat.\<close>
  the mapper sends the words \<open>the, cat, sat, the, dog, sat, on, the, cat\<close>, as the claim
  says; the pipeline prints \<open>(cat, 3), (dog, 2), (on, 2), (sat, 3)\<close> and no record for
  \<open>the\<close>.
\<close>

theorem pipeline_example_output:
  "map word (fst (mapper background
       [runes ''The cat sat.'', runes ''The dog sat on the cat.''] mapFn)) =
     [''the'', ''cat'', ''sat'', ''the'', ''dog'', ''sat'', ''on'', ''the'', ''cat''] \<and>
   pipeline [runes ''The cat sat.'', runes ''The dog sat on the cat.''] =
     [\<lparr>word = ''cat'', count_wc = 3\<rparr>, \<lparr>word = ''dog'', count_wc = 2\<rparr>,
      \<lparr>word = ''on'', count_wc = 2\<rparr>, \<lparr>word = ''sat'', count_wc = 3\<rparr>]"
  by (simp add: mapper_example pipeline_example)

end
